theory Spec2Isabelle
  imports Complex_Main "HOL-Library.AList" "HOL-Library.Multiset" "HOL-Library.Sublist"
begin

section \<open>Result merger (composables/search/merger.ts)\<close>

text \<open>
  A link of a merged result, \<^verbatim>\<open>{ url, password, title }\<close>.  The merger only ever reads the
  \<^verbatim>\<open>url\<close> field.
\<close>

record link =
  url :: string
  password :: string
  title :: string

text \<open>
  \<^verbatim>\<open>MergedLinks\<close> is a JavaScript object from storage-type tags to arrays of links.  It is
  modelled as an association list; \<^verbatim>\<open>obj[type]\<close> is \<^const>\<open>map_of\<close> and the assignment
  \<^verbatim>\<open>obj[type] = v\<close> is \<^const>\<open>AList.update\<close> (replace in place, or add at the end).  The order
  in which \<^verbatim>\<open>Object.keys\<close> enumerates the keys is not relied upon by any theorem below: all
  results are read through \<^const>\<open>map_of\<close>.
\<close>

type_synonym MergedLinks = "(string \<times> link list) list"

text \<open>
  The inner loop
  \<^verbatim>\<open>for (const item of next) { if (!seen.has(item.url)) { seen.add(item.url); mergedArr.push(item); } }\<close>
\<close>

fun pushUnseen :: "string set \<Rightarrow> link list \<Rightarrow> link list \<Rightarrow> link list" where
  "pushUnseen seen mergedArr [] = mergedArr"
| "pushUnseen seen mergedArr (item # next) =
     (if url item \<notin> seen
      then pushUnseen (insert (url item) seen) (mergedArr @ [item]) next
      else pushUnseen seen mergedArr next)"

text \<open>\<^verbatim>\<open>x || []\<close> for a looked-up array.\<close>

definition orEmpty :: "'a list option \<Rightarrow> 'a list" where
  "orEmpty v = (case v of None \<Rightarrow> [] | Some xs \<Rightarrow> xs)"

text \<open>One iteration of \<^verbatim>\<open>for (const type of Object.keys(incoming))\<close>.\<close>

definition mergeType :: "MergedLinks \<Rightarrow> MergedLinks \<Rightarrow> string \<Rightarrow> MergedLinks" where
  "mergeType incoming out type =
     (let existed = orEmpty (map_of out type);
          next = orEmpty (map_of incoming type);
          seen = set (map url existed);
          mergedArr = pushUnseen seen existed next
      in AList.update type mergedArr out)"

text \<open>
  \<^verbatim>\<open>mergeMergedByType(target, incoming?)\<close>, on values.  An absent (\<^verbatim>\<open>undefined\<close> or
  \<^verbatim>\<open>null\<close>) second argument is \<^const>\<open>None\<close>.
\<close>

definition mergeMergedByType :: "MergedLinks \<Rightarrow> MergedLinks option \<Rightarrow> MergedLinks" where
  "mergeMergedByType target incoming =
     (case incoming of
        None \<Rightarrow> target
      | Some inc \<Rightarrow> foldl (mergeType inc) target (map fst inc))"



section \<open>Plugin registry (server/core/plugins/manager.ts)\<close>

text \<open>
  Of a plugin the registry uses \<^verbatim>\<open>name()\<close> and \<^verbatim>\<open>priority()\<close>; the outcome of its
  \<^verbatim>\<open>search\<close> is used by the orchestrator only.
\<close>

record 'r plugin =
  pluginName :: string
  pluginPriority :: int
  pluginSearch :: "string \<Rightarrow> 'r"

record 'r PluginManager =
  plugins :: "'r plugin list"

definition newPluginManager :: "'r PluginManager" where
  "newPluginManager = \<lparr>plugins = []\<rparr>"

text \<open>\<^verbatim>\<open>registerPlugin\<close>: a \<^verbatim>\<open>null\<close>/\<^verbatim>\<open>undefined\<close> argument (\<^const>\<open>None\<close>) is ignored.\<close>

definition registerPlugin :: "'r plugin option \<Rightarrow> 'r PluginManager \<Rightarrow> 'r PluginManager" where
  "registerPlugin p pm =
     (case p of None \<Rightarrow> pm | Some q \<Rightarrow> pm\<lparr>plugins := plugins pm @ [q]\<rparr>)"

definition registerPlugins :: "'r plugin option list \<Rightarrow> 'r PluginManager \<Rightarrow> 'r PluginManager" where
  "registerPlugins ps pm = foldl (\<lambda>m p. registerPlugin p m) pm ps"

text \<open>
  \<^verbatim>\<open>Array.prototype.sort(compareFn)\<close> is a library routine, specified by ECMAScript to be
  stable.  It is modelled as the stable insertion sort driven by the sign of the comparator:
  an element is placed in front of the first later element it does not compare greater than.
\<close>

fun insertCmp :: "('a \<Rightarrow> 'a \<Rightarrow> int) \<Rightarrow> 'a \<Rightarrow> 'a list \<Rightarrow> 'a list" where
  "insertCmp cmp x [] = [x]"
| "insertCmp cmp x (y # ys) = (if cmp x y \<le> 0 then x # y # ys else y # insertCmp cmp x ys)"

definition arraySort :: "('a \<Rightarrow> 'a \<Rightarrow> int) \<Rightarrow> 'a list \<Rightarrow> 'a list" where
  "arraySort cmp xs = foldr (insertCmp cmp) xs []"

text \<open>\<^verbatim>\<open>getPlugins\<close>: \<^verbatim>\<open>[...this.plugins].sort((a, b) => a.priority() - b.priority())\<close>.\<close>

definition getPlugins :: "'r PluginManager \<Rightarrow> 'r plugin list" where
  "getPlugins pm = arraySort (\<lambda>a b. pluginPriority a - pluginPriority b) (plugins pm)"

definition getPlugin :: "string \<Rightarrow> 'r PluginManager \<Rightarrow> 'r plugin option" where
  "getPlugin n pm = find (\<lambda>p. pluginName p = n) (plugins pm)"

definition managerSize :: "'r PluginManager \<Rightarrow> nat" where
  "managerSize pm = length (plugins pm)"

definition managerClear :: "'r PluginManager \<Rightarrow> 'r PluginManager" where
  "managerClear pm = pm\<lparr>plugins := []\<rparr>"

section \<open>In-memory cache (server/core/cache/memoryCache.ts)\<close>

text \<open>
  Timestamps (\<^verbatim>\<open>Date.now()\<close>) and byte sizes are whole numbers.  A time-to-live is a whole
  number of milliseconds or \<^verbatim>\<open>Infinity\<close>, which the repository's tests use for entries that
  never expire; accordingly an expiry is a timestamp or never.
\<close>

datatype ttl = Ms int | Forever

datatype expiry = At int | Never

text \<open>\<^verbatim>\<open>rec.expireAt > now\<close> and \<^verbatim>\<open>rec.expireAt <= now\<close>.\<close>

fun expiresAfter :: "expiry \<Rightarrow> int \<Rightarrow> bool" where
  "expiresAfter (At t) now = (t > now)"
| "expiresAfter Never now = True"

text \<open>\<^verbatim>\<open>Date.now() + Math.max(0, ttlMs)\<close>.\<close>

fun expireAtFor :: "int \<Rightarrow> ttl \<Rightarrow> expiry" where
  "expireAtFor now (Ms t) = At (now + max 0 t)"
| "expireAtFor now Forever = Never"

text \<open>
  The cached values, by what \<^verbatim>\<open>estimateSize\<close> distinguishes: the result of \<^verbatim>\<open>typeof\<close>, and
  for an object what the library routine \<^verbatim>\<open>JSON.stringify\<close> does with it (returns a string,
  returns \<^verbatim>\<open>undefined\<close>, or throws).  \<open>VOther\<close> stands for the remaining types (functions,
  symbols, big integers).
\<close>

datatype stringified = Json string | JsonUndefined | JsonThrows

datatype jsvalue =
    VNull
  | VUndefined
  | VString string
  | VNumber int
  | VBoolean bool
  | VObject stringified
  | VOther

fun estimateSize :: "jsvalue \<Rightarrow> int" where
  "estimateSize VNull = 8"
| "estimateSize VUndefined = 8"
| "estimateSize (VString s) = int (length s) * 2"
| "estimateSize (VNumber n) = 8"
| "estimateSize (VBoolean b) = 4"
| "estimateSize (VObject (Json str)) = (if str \<noteq> [] then int (length str) * 2 else 64)"
| "estimateSize (VObject JsonUndefined) = 64"
| "estimateSize (VObject JsonThrows) = 64"
| "estimateSize VOther = 64"

record CacheRecord =
  value_rec :: jsvalue
  expireAt :: expiry
  size_rec :: int

record MemoryCacheOptions =
  maxSize :: int
  maxMemoryBytes :: int
  cleanupInterval :: int
  memoryThreshold :: rat

text \<open>
  The \<^verbatim>\<open>Map\<close> of the cache keeps its entries in insertion order, oldest first: an association
  list.  \<^verbatim>\<open>store.delete(key)\<close> is \<^const>\<open>AList.delete\<close> and \<^verbatim>\<open>store.set(key, rec)\<close> is
  \<^const>\<open>AList.update\<close> (in place for a key that is present, at the end for a new key).
\<close>

record MemoryCache =
  store :: "(string \<times> CacheRecord) list"
  options :: MemoryCacheOptions
  lastCleanup :: int
  hits :: nat
  misses :: nat
  evictions :: nat

text \<open>The constructor; an option that is not given takes its default.\<close>

definition newMemoryCache ::
  "int option \<Rightarrow> int option \<Rightarrow> int option \<Rightarrow> rat option \<Rightarrow> MemoryCache" where
  "newMemoryCache optMaxSize optMaxMemoryBytes optCleanupInterval optMemoryThreshold =
     \<lparr>store = [],
      options = \<lparr>maxSize = (case optMaxSize of None \<Rightarrow> 1000 | Some n \<Rightarrow> n),
                 maxMemoryBytes =
                   (case optMaxMemoryBytes of None \<Rightarrow> 100 * 1024 * 1024 | Some n \<Rightarrow> n),
                 cleanupInterval =
                   (case optCleanupInterval of None \<Rightarrow> 5 * 60 * 1000 | Some n \<Rightarrow> n),
                 memoryThreshold = (case optMemoryThreshold of None \<Rightarrow> 8 / 10 | Some x \<Rightarrow> x)\<rparr>,
      lastCleanup = 0, hits = 0, misses = 0, evictions = 0\<rparr>"

definition storeBytes :: "(string \<times> CacheRecord) list \<Rightarrow> int" where
  "storeBytes st = sum_list (map (\<lambda>(k, r). size_rec r) st)"

definition calculateMemoryUsage :: "MemoryCache \<Rightarrow> int" where
  "calculateMemoryUsage c = storeBytes (store c)"

text \<open>
  \<^verbatim>\<open>cleanupExpired\<close> collects the keys whose \<^verbatim>\<open>expireAt <= now\<close> and deletes them one by one.
\<close>

definition expiredKeys :: "int \<Rightarrow> (string \<times> CacheRecord) list \<Rightarrow> string list" where
  "expiredKeys now st = map fst (filter (\<lambda>(k, r). \<not> expiresAfter (expireAt r) now) st)"

definition cleanupExpired :: "int \<Rightarrow> MemoryCache \<Rightarrow> MemoryCache" where
  "cleanupExpired now c =
     c\<lparr>store := foldl (\<lambda>st k. AList.delete k st) (store c) (expiredKeys now (store c))\<rparr>"

text \<open>
  \<^verbatim>\<open>evictLRU(count)\<close>: up to \<open>count\<close> times, take the first key of the live iteration order
  and delete it.  A \<open>count\<close> that is not positive runs no iteration.
\<close>

fun evictLRU_loop :: "nat \<Rightarrow> MemoryCache \<Rightarrow> MemoryCache" where
  "evictLRU_loop 0 c = c"
| "evictLRU_loop (Suc n) c =
     (case store c of
        [] \<Rightarrow> c
      | (key, r) # rest \<Rightarrow>
          evictLRU_loop n (c\<lparr>store := AList.delete key (store c), evictions := evictions c + 1\<rparr>))"

definition evictLRU :: "int \<Rightarrow> MemoryCache \<Rightarrow> MemoryCache" where
  "evictLRU cnt c = evictLRU_loop (nat cnt) c"

text \<open>
  \<^verbatim>\<open>evictForMemory(bytesToFree)\<close>: while \<^verbatim>\<open>freed < bytesToFree\<close>, take the first key of the live
  iteration order, add its size to \<open>freed\<close> and delete it; stop when the store is exhausted.
  \<open>bytesToFree\<close> is a fraction when it comes from \<^verbatim>\<open>memoryUsage * 0.1\<close>.
\<close>

function evictForMemory_loop :: "rat \<Rightarrow> int \<Rightarrow> MemoryCache \<Rightarrow> MemoryCache" where
  "evictForMemory_loop bytesToFree freed c =
     (if of_int freed < bytesToFree
      then (case store c of
              [] \<Rightarrow> c
            | (key, r) # rest \<Rightarrow>
                evictForMemory_loop bytesToFree (freed + size_rec r)
                  (c\<lparr>store := AList.delete key (store c), evictions := evictions c + 1\<rparr>))
      else c)"
  by pat_completeness auto
termination
proof (relation "measure (\<lambda>(b, f, c). length (store c))")
  show "wf (measure (\<lambda>(b, f, c). length (store c)))" by simp
next
  fix bytesToFree :: rat and freed :: int and c :: MemoryCache and x21 x22 key r
  assume "store c = x21 # x22" and "(key, r) = x21"
  then have "store c = (key, r) # x22" by simp
  then have "length (AList.delete key (store c)) \<le> length x22"
    by (simp add: length_delete_le)
  then show "((bytesToFree, freed + size_rec r,
               c\<lparr>store := AList.delete key (store c), evictions := evictions c + 1\<rparr>),
              bytesToFree, freed, c) \<in> measure (\<lambda>(b, f, c). length (store c))"
    using \<open>store c = (key, r) # x22\<close> by simp
qed

declare evictForMemory_loop.simps [simp del]

definition evictForMemory :: "rat \<Rightarrow> MemoryCache \<Rightarrow> MemoryCache" where
  "evictForMemory bytesToFree c = evictForMemory_loop bytesToFree 0 c"

text \<open>
  \<^verbatim>\<open>memoryUsage / maxMemoryBytes > memoryThreshold\<close>.  In JavaScript a division by zero gives
  \<^verbatim>\<open>Infinity\<close> for a positive dividend (greater than any threshold) and \<^verbatim>\<open>NaN\<close> for a zero
  dividend (greater than nothing); elsewhere the quotient is taken exactly.
\<close>

definition overThreshold :: "MemoryCacheOptions \<Rightarrow> int \<Rightarrow> bool" where
  "overThreshold opts memoryUsage =
     (if maxMemoryBytes opts = 0 then memoryUsage > 0
      else of_int memoryUsage / of_int (maxMemoryBytes opts) > memoryThreshold opts)"

text \<open>
  \<^verbatim>\<open>smartCleanup(force)\<close>.  Every public operation reads the clock once; \<open>now\<close> is that reading.
  \<open>cleanupPass\<close> is the body behind the interval gate.  The usage compared against the
  threshold in step 4 is the one computed before step 3, as in the source.  The quotient in
  the threshold test and the product \<^verbatim>\<open>memoryUsage * 0.1\<close> are floating-point in the source and
  exact rationals here.
\<close>

definition cleanupPass :: "int \<Rightarrow> MemoryCache \<Rightarrow> MemoryCache" where
  "cleanupPass now c =
     (let c1 = cleanupExpired now (c\<lparr>lastCleanup := now\<rparr>);
          sizeOver = int (length (store c1)) - maxSize (options c1);
          c2 = (if sizeOver > 0 then evictLRU sizeOver c1 else c1);
          memoryUsage = calculateMemoryUsage c2;
          memoryOver = memoryUsage - maxMemoryBytes (options c2);
          c3 = (if memoryOver > 0 then evictForMemory (of_int memoryOver) c2 else c2)
      in if overThreshold (options c3) memoryUsage
         then evictForMemory (of_int memoryUsage * (1 / 10)) c3
         else c3)"

definition smartCleanup :: "bool \<Rightarrow> int \<Rightarrow> MemoryCache \<Rightarrow> MemoryCache" where
  "smartCleanup force now c =
     (if \<not> force \<and> now - lastCleanup c < cleanupInterval (options c) then c
      else cleanupPass now c)"

text \<open>
  \<^verbatim>\<open>get(key)\<close>: the result \<^verbatim>\<open>{ hit, value? }\<close> and the cache after the call.  A hit deletes the
  entry and stores it again, which moves it to the end of the order.
\<close>

datatype getResult = Hit jsvalue | Miss

definition get :: "string \<Rightarrow> int \<Rightarrow> MemoryCache \<Rightarrow> getResult \<times> MemoryCache" where
  "get key now c =
     (let c1 = smartCleanup False now c
      in case map_of (store c1) key of
           None \<Rightarrow> (Miss, c1\<lparr>misses := misses c1 + 1\<rparr>)
         | Some r \<Rightarrow>
             if expiresAfter (expireAt r) now
             then (Hit (value_rec r),
                   c1\<lparr>store := AList.update key r (AList.delete key (store c1)),
                      hits := hits c1 + 1\<rparr>)
             else (Miss, c1\<lparr>store := AList.delete key (store c1), misses := misses c1 + 1\<rparr>))"

text \<open>
  \<^verbatim>\<open>set(key, value, ttlMs)\<close>, named \<open>set_entry\<close> because \<open>set\<close> is the set of a list.  The
  item-count eviction and the memory eviction are the two arms of one \<^verbatim>\<open>if\<close> / \<^verbatim>\<open>else if\<close>,
  and the new record is stored in every case.
\<close>

definition set_entry :: "string \<Rightarrow> jsvalue \<Rightarrow> ttl \<Rightarrow> int \<Rightarrow> MemoryCache \<Rightarrow> MemoryCache" where
  "set_entry key v ttlMs now c =
     (let c1 = smartCleanup False now c;
          c2 = (if map_of (store c1) key \<noteq> None
                then c1\<lparr>store := AList.delete key (store c1)\<rparr> else c1);
          sz = estimateSize v;
          record = \<lparr>value_rec = v, expireAt = expireAtFor now ttlMs, size_rec = sz\<rparr>;
          currentMemory = calculateMemoryUsage c2;
          needSizeEviction = (int (length (store c2)) \<ge> maxSize (options c2));
          needMemoryEviction = (currentMemory + sz > maxMemoryBytes (options c2));
          c3 = (if needSizeEviction \<or> needMemoryEviction
                then
                  let c2a = cleanupExpired now c2;
                      stillNeedSizeEviction = (int (length (store c2a)) \<ge> maxSize (options c2a));
                      currentMemoryAfter = calculateMemoryUsage c2a;
                      stillNeedMemoryEviction =
                        (currentMemoryAfter + sz > maxMemoryBytes (options c2a))
                  in if stillNeedSizeEviction
                     then evictLRU (int (length (store c2a)) - maxSize (options c2a) + 1) c2a
                     else if stillNeedMemoryEviction
                     then evictForMemory
                            (of_int (currentMemoryAfter + sz - maxMemoryBytes (options c2a))) c2a
                     else c2a
                else c2)
      in c3\<lparr>store := AList.update key record (store c3)\<rparr>)"

text \<open>
  Two stretches of \<^verbatim>\<open>set\<close>, named for the proofs: the state after the opportunistic cleanup
  and the removal of an old entry for the key, and the step that makes room for the new entry.
\<close>

definition setAfterCleanup :: "string \<Rightarrow> int \<Rightarrow> MemoryCache \<Rightarrow> MemoryCache" where
  "setAfterCleanup key now c =
     (let c1 = smartCleanup False now c
      in if map_of (store c1) key \<noteq> None then c1\<lparr>store := AList.delete key (store c1)\<rparr> else c1)"

definition setRoom :: "int \<Rightarrow> int \<Rightarrow> MemoryCache \<Rightarrow> MemoryCache" where
  "setRoom sz now c2 =
     (if int (length (store c2)) \<ge> maxSize (options c2)
         \<or> calculateMemoryUsage c2 + sz > maxMemoryBytes (options c2)
      then
        let c2a = cleanupExpired now c2
        in if int (length (store c2a)) \<ge> maxSize (options c2a)
           then evictLRU (int (length (store c2a)) - maxSize (options c2a) + 1) c2a
           else if calculateMemoryUsage c2a + sz > maxMemoryBytes (options c2a)
           then evictForMemory
                  (of_int (calculateMemoryUsage c2a + sz - maxMemoryBytes (options c2a))) c2a
           else c2a
      else c2)"

text \<open>\<^verbatim>\<open>delete(key)\<close>, \<^verbatim>\<open>clear()\<close>, the getter \<^verbatim>\<open>size\<close> and \<^verbatim>\<open>forceCleanup()\<close>.\<close>

definition delete_entry :: "string \<Rightarrow> MemoryCache \<Rightarrow> MemoryCache" where
  "delete_entry key c = c\<lparr>store := AList.delete key (store c)\<rparr>"

definition clear :: "MemoryCache \<Rightarrow> MemoryCache" where
  "clear c = c\<lparr>store := [], hits := 0, misses := 0, evictions := 0\<rparr>"

definition cacheSize :: "MemoryCache \<Rightarrow> nat" where
  "cacheSize c = length (store c)"

definition forceCleanup :: "int \<Rightarrow> MemoryCache \<Rightarrow> MemoryCache" where
  "forceCleanup now c = smartCleanup True now c"

text \<open>
  The public operations that change a cache, each with the clock reading it is called at, and
  a history of them applied from left to right.
\<close>

datatype cacheOp =
    OpGet string
  | OpSet string jsvalue ttl
  | OpDelete string
  | OpClear
  | OpForceCleanup

fun applyOp :: "int \<times> cacheOp \<Rightarrow> MemoryCache \<Rightarrow> MemoryCache" where
  "applyOp (now, OpGet key) c = snd (get key now c)"
| "applyOp (now, OpSet key v ttlMs) c = set_entry key v ttlMs now c"
| "applyOp (now, OpDelete key) c = delete_entry key c"
| "applyOp (now, OpClear) c = clear c"
| "applyOp (now, OpForceCleanup) c = forceCleanup now c"

definition runOps :: "(int \<times> cacheOp) list \<Rightarrow> MemoryCache \<Rightarrow> MemoryCache" where
  "runOps ops c = foldl (\<lambda>s op. applyOp op s) c ops"

fun writesKey :: "string \<Rightarrow> cacheOp \<Rightarrow> bool" where
  "writesKey key (OpSet k v ttlMs) = (k = key)"
| "writesKey key other = False"

text \<open>
  The states the class can be in: keys are unique and every record carries a size that is not
  negative (\<^const>\<open>estimateSize\<close> returns no other).
\<close>

definition sizesOk :: "(string \<times> CacheRecord) list \<Rightarrow> bool" where
  "sizesOk st = list_all (\<lambda>(k, r). 0 \<le> size_rec r) st"

definition wellFormed :: "MemoryCache \<Rightarrow> bool" where
  "wellFormed c = (distinct (map fst (store c)) \<and> sizesOk (store c))"


text \<open>Every entry stored under \<open>key\<close> has expired by the time \<open>t\<close>.\<close>

definition deadKey :: "string \<Rightarrow> int \<Rightarrow> MemoryCache \<Rightarrow> bool" where
  "deadKey key t c = list_all (\<lambda>(k, r). k = key \<longrightarrow> \<not> expiresAfter (expireAt r) t) (store c)"

definition keysOf :: "MemoryCache \<Rightarrow> string list" where
  "keysOf c = map fst (store c)"

section \<open>The merger on a store of objects\<close>

text \<open>
  Whether \<^verbatim>\<open>mergeMergedByType\<close> changes its arguments, and whether its result is a new object,
  cannot be said on values.  Here the JavaScript heap is explicit: a table of the
  \<^verbatim>\<open>MergedLinks\<close> objects, each mapping a storage type to the address of an array, and a table
  of the arrays of links.  An address is an index into its table; allocation appends to the
  table; a link is never written to by the merger and stays a value.
\<close>

record heap =
  objects :: "(string \<times> nat) list list"
  arrays :: "link list list"

definition readObject :: "heap \<Rightarrow> nat \<Rightarrow> (string \<times> nat) list" where
  "readObject h a = (if a < length (objects h) then objects h ! a else [])"

definition readArray :: "heap \<Rightarrow> nat \<Rightarrow> link list" where
  "readArray h a = (if a < length (arrays h) then arrays h ! a else [])"

definition allocObject :: "(string \<times> nat) list \<Rightarrow> heap \<Rightarrow> nat \<times> heap" where
  "allocObject props h = (length (objects h), h\<lparr>objects := objects h @ [props]\<rparr>)"

definition allocArray :: "link list \<Rightarrow> heap \<Rightarrow> nat \<times> heap" where
  "allocArray elems h = (length (arrays h), h\<lparr>arrays := arrays h @ [elems]\<rparr>)"

text \<open>\<^verbatim>\<open>obj[type] || []\<close>: the array stored under the key, or an empty array.\<close>

definition fieldOrEmpty :: "heap \<Rightarrow> nat \<Rightarrow> string \<Rightarrow> link list" where
  "fieldOrEmpty h obj type =
     (case map_of (readObject h obj) type of None \<Rightarrow> [] | Some a \<Rightarrow> readArray h a)"

text \<open>
  The inner loop; \<^verbatim>\<open>mergedArr.push(item)\<close> writes to the array at address \<open>mergedArr\<close>.  The
  array \<open>next\<close> that is iterated is not written to by the loop (it is not \<open>mergedArr\<close>, which
  was allocated after it), so it is passed as the list of its elements.
\<close>

fun pushUnseen_heap :: "string set \<Rightarrow> nat \<Rightarrow> link list \<Rightarrow> heap \<Rightarrow> heap" where
  "pushUnseen_heap seen mergedArr [] h = h"
| "pushUnseen_heap seen mergedArr (item # next) h =
     (if url item \<notin> seen
      then pushUnseen_heap (insert (url item) seen) mergedArr next
             (h\<lparr>arrays := (arrays h)[mergedArr := readArray h mergedArr @ [item]]\<rparr>)
      else pushUnseen_heap seen mergedArr next h)"

text \<open>
  One iteration of the loop over the keys: \<^verbatim>\<open>[...existed]\<close> allocates the new array and
  \<^verbatim>\<open>out[type] = mergedArr\<close> writes to the object at address \<open>out\<close>.
\<close>

definition mergeType_heap :: "nat \<Rightarrow> nat \<Rightarrow> heap \<Rightarrow> string \<Rightarrow> heap" where
  "mergeType_heap incoming out h type =
     (let existed = fieldOrEmpty h out type;
          next = fieldOrEmpty h incoming type;
          seen = set (map url existed);
          (mergedArr, h1) = allocArray existed h;
          h2 = pushUnseen_heap seen mergedArr next h1
      in h2\<lparr>objects := (objects h2)[out := AList.update type mergedArr (readObject h2 out)]\<rparr>)"

text \<open>
  \<^verbatim>\<open>mergeMergedByType(target, incoming?)\<close> on addresses: the result is an address and the heap
  after the call.  \<^verbatim>\<open>{ ...target }\<close> allocates a new object with the fields of \<open>target\<close>, that is
  with the same array addresses.
\<close>

definition mergeMergedByType_heap :: "nat \<Rightarrow> nat option \<Rightarrow> heap \<Rightarrow> nat \<times> heap" where
  "mergeMergedByType_heap target incoming h =
     (case incoming of
        None \<Rightarrow> (target, h)
      | Some inc \<Rightarrow>
          let (out, h1) = allocObject (readObject h target) h
          in (out, foldl (mergeType_heap inc out) h1 (map fst (readObject h inc))))"

text \<open>The value of the object at an address: its keys with the contents of their arrays.\<close>

definition contents :: "heap \<Rightarrow> nat \<Rightarrow> MergedLinks" where
  "contents h a = map (\<lambda>(k, arr). (k, readArray h arr)) (readObject h a)"

text \<open>Every object and array of \<open>h\<close> is in \<open>h'\<close>, at its address and with its contents.\<close>

definition extends :: "heap \<Rightarrow> heap \<Rightarrow> bool" where
  "extends h h' = (prefix (objects h) (objects h') \<and> prefix (arrays h) (arrays h'))"

text \<open>Every array address stored in an object of the heap is allocated.\<close>

definition validHeap :: "heap \<Rightarrow> bool" where
  "validHeap h = list_all (\<lambda>obj. list_all (\<lambda>(k, a). a < length (arrays h)) obj) (objects h)"

section \<open>Search orchestrator\<close>




datatype resultShape = ShapeResults | ShapeMergedByType | ShapeAll

datatype sourceSelector = SrcAll | SrcTg | SrcPlugin



datatype searchError = InternalError














section \<open>Concrete inputs\<close>

text \<open>Two links with different URLs, and a plugin with a given name and priority.\<close>

definition link1 :: link where
  "link1 = \<lparr>url = ''url1'', password = [], title = []\<rparr>"

definition link2 :: link where
  "link2 = \<lparr>url = ''url2'', password = [], title = []\<rparr>"

definition testPlugin :: "string \<Rightarrow> int \<Rightarrow> unit plugin" where
  "testPlugin n p = \<lparr>pluginName = n, pluginPriority = p, pluginSearch = (\<lambda>_. ())\<rparr>"

text \<open>
  A clock reading, and the caches of the repository's cache tests: item capacity 100 or 2 with
  a budget of 10 MiB, and item capacity 100 with a budget of 1 KiB.
\<close>

definition t0 :: int where
  "t0 = 1700000000000"

definition testCache :: MemoryCache where
  "testCache = newMemoryCache (Some 100) (Some (10 * 1024 * 1024)) None None"

definition smallCache :: MemoryCache where
  "smallCache = newMemoryCache (Some 2) (Some (10 * 1024 * 1024)) None None"



text \<open>
  A cache with the default options but a budget of 100 bytes, whose last cleanup pass ran
  299.5 seconds before \<^const>\<open>t0\<close>.
\<close>

definition warmCache :: MemoryCache where
  "warmCache = snd (get ''none'' (t0 - 299500) (newMemoryCache None (Some 100) None None))"

text \<open>The small test cache after \<^verbatim>\<open>set(key1)\<close>, \<^verbatim>\<open>set(key2)\<close>, \<^verbatim>\<open>get(key1)\<close>.\<close>

definition touchedCache :: MemoryCache where
  "touchedCache =
     snd (get ''key1'' t0
       (set_entry ''key2'' (VString ''value2'') (Ms 1000) t0
          (set_entry ''key1'' (VString ''value1'') (Ms 1000) t0 smallCache)))"

text \<open>The test cache holding one entry written at \<^const>\<open>t0\<close> with a time-to-live of 1000 ms.\<close>

definition oneEntryCache :: MemoryCache where
  "oneEntryCache = set_entry ''key1'' (VString ''value1'') (Ms 1000) t0 testCache"

text \<open>The test cache holding one entry whose time-to-live was 10 ms.\<close>

definition expiredEntryCache :: MemoryCache where
  "expiredEntryCache = set_entry ''old'' (VString ''stale'') (Ms 10) t0 testCache"

text \<open>A heap with one object \<open>{baidu: [url1]}\<close> at address 0.\<close>

definition oneObjectHeap :: heap where
  "oneObjectHeap = \<lparr>objects = [[(''baidu'', 0)]], arrays = [[link1]]\<rparr>"

text \<open>A heap with \<open>{baidu: [url1]}\<close> at address 0 and \<open>{baidu: [url2, url1]}\<close> at address 1.\<close>

definition twoObjectHeap :: heap where
  "twoObjectHeap =
     \<lparr>objects = [[(''baidu'', 0)], [(''baidu'', 1)]], arrays = [[link1], [link2, link1]]\<rparr>"




section \<open>Properties of the merger\<close>

subsection \<open>The inner loop\<close>









subsection \<open>One storage type, and the loop over the storage types\<close>









subsection \<open>Result shape\<close>





subsection \<open>Idempotence\<close>


subsection \<open>Empty buckets\<close>



section \<open>Properties of the plugin registry\<close>

lemma insertCmp_priority:
  "insertCmp (\<lambda>a b. pluginPriority a - pluginPriority b) x ys = insort_key pluginPriority x ys"
  by (induction ys) auto

lemma arraySort_priority:
  "arraySort (\<lambda>a b. pluginPriority a - pluginPriority b) xs = sort_key pluginPriority xs"
  unfolding arraySort_def sort_key_def
  by (induction xs) (simp_all add: insertCmp_priority)

lemma plugins_registerPlugins:
  "plugins (registerPlugins ps pm) = plugins pm @ List.map_filter (\<lambda>p. p) ps"
proof (induction ps arbitrary: pm)
  case Nil
  show ?case by (simp add: registerPlugins_def map_filter_simps)
next
  case (Cons a ps)
  have "registerPlugins (a # ps) pm = registerPlugins ps (registerPlugin a pm)"
    by (simp add: registerPlugins_def)
  then show ?case
    using Cons.IH [of "registerPlugin a pm"]
    by (cases a) (simp_all add: registerPlugin_def map_filter_simps)
qed

text \<open>
  Claim C8: for every list of registered plugins, \<^verbatim>\<open>getPlugins()\<close> returns the same plugins
  (as a multiset), sorted ascending by priority, and the plugins of any one priority appear
  in their registration order; plugins registered with priorities 3, 1, 2 are returned in the
  order 1, 2, 3.
\<close>

theorem getPlugins_sorted_stable:
  "sorted (map pluginPriority (getPlugins pm))
   \<and> mset (getPlugins pm) = mset (plugins pm)
   \<and> (\<forall>n. filter (\<lambda>p. pluginPriority p = n) (getPlugins pm)
           = filter (\<lambda>p. pluginPriority p = n) (plugins pm))
   \<and> map pluginName (getPlugins (registerPlugins
          [Some (testPlugin ''a'' 3), Some (testPlugin ''b'' 1), Some (testPlugin ''c'' 2)]
          newPluginManager)) = [''b'', ''c'', ''a'']"
proof (intro conjI allI)
  show "sorted (map pluginPriority (getPlugins pm))"
    by (simp add: getPlugins_def arraySort_priority)
  show "mset (getPlugins pm) = mset (plugins pm)"
    by (simp add: getPlugins_def arraySort_priority)
  show "filter (\<lambda>p. pluginPriority p = n) (getPlugins pm)
          = filter (\<lambda>p. pluginPriority p = n) (plugins pm)" for n
    by (simp add: getPlugins_def arraySort_priority sort_key_stable)
  show "map pluginName (getPlugins (registerPlugins
          [Some (testPlugin ''a'' 3), Some (testPlugin ''b'' 1), Some (testPlugin ''c'' 2)]
          newPluginManager)) = [''b'', ''c'', ''a'']"
    by (simp add: getPlugins_def arraySort_def plugins_registerPlugins newPluginManager_def
        map_filter_simps testPlugin_def)
qed

section \<open>Properties of the cache\<close>

subsection \<open>Stores that only lose entries\<close>

lemma subseq_set_mono: "subseq xs ys \<Longrightarrow> set xs \<subseteq> set ys"
  by (induction rule: list_emb.induct) auto

lemma storeBytes_nonneg: "sizesOk st \<Longrightarrow> 0 \<le> storeBytes st"
  by (induction st) (auto simp: storeBytes_def sizesOk_def)

lemma storeBytes_Cons: "storeBytes ((k, r) # st) = size_rec r + storeBytes st"
  by (simp add: storeBytes_def)

lemma sizesOk_Cons: "sizesOk ((k, r) # st) \<longleftrightarrow> 0 \<le> size_rec r \<and> sizesOk st"
  by (simp add: sizesOk_def)

lemma subseq_storeBytes:
  "subseq xs ys \<Longrightarrow> sizesOk ys \<Longrightarrow> storeBytes xs \<le> storeBytes ys"
proof (induction rule: list_emb.induct)
  case (list_emb_Nil ys)
  then show ?case using storeBytes_nonneg [of ys] by (simp add: storeBytes_def)
next
  case (list_emb_Cons xs ys y)
  then show ?case by (cases y) (auto simp: storeBytes_Cons sizesOk_Cons)
next
  case (list_emb_Cons2 x y xs ys)
  then show ?case by (cases y) (auto simp: storeBytes_Cons sizesOk_Cons)
qed

lemma subseq_sizesOk: "subseq xs ys \<Longrightarrow> sizesOk ys \<Longrightarrow> sizesOk xs"
  by (induction rule: list_emb.induct) (auto simp: sizesOk_def)

lemma subseq_distinct_keys:
  "subseq xs ys \<Longrightarrow> distinct (map fst ys) \<Longrightarrow> distinct (map fst xs)"
proof (induction rule: list_emb.induct)
  case (list_emb_Cons2 x y xs ys)
  then have "set xs \<subseteq> set ys" by (simp add: subseq_set_mono)
  then show ?case using list_emb_Cons2 by auto
qed auto

lemma subseq_missing_shorter:
  "subseq xs ys \<Longrightarrow> x \<in> set ys \<Longrightarrow> x \<notin> set xs \<Longrightarrow> length xs < length ys"
  by (metis le_neq_implies_less list_emb_length subseq_same_length)

lemma subseq_delete: "subseq (AList.delete k st) st"
  by (simp add: AList.delete_eq)

lemma subseq_foldl_delete: "subseq (foldl (\<lambda>st k. AList.delete k st) st ks) st"
proof (induction ks arbitrary: st)
  case Nil
  show ?case by simp
next
  case (Cons k ks)
  have "subseq (foldl (\<lambda>st k. AList.delete k st) (AList.delete k st) ks) (AList.delete k st)"
    by (rule Cons.IH)
  then show ?case using subseq_delete [of k st] subseq_order.order_trans by fastforce
qed

lemma delete_head: "distinct (map fst ((k, r) # rest)) \<Longrightarrow> AList.delete k ((k, r) # rest) = rest"
  by (simp add: image_iff)

subsection \<open>Expiry purge and eviction only remove entries\<close>

lemma cleanupExpired_shrinks:
  "subseq (store (cleanupExpired now c)) (store c) \<and> options (cleanupExpired now c) = options c"
  by (simp add: cleanupExpired_def subseq_foldl_delete)

lemma evictLRU_loop_shrinks:
  "subseq (store (evictLRU_loop n c)) (store c) \<and> options (evictLRU_loop n c) = options c"
proof (induction n arbitrary: c)
  case 0
  show ?case by simp
next
  case (Suc n)
  show ?case
  proof (cases "store c")
    case Nil
    then show ?thesis by simp
  next
    case (Cons a rest)
    obtain key r where a: "a = (key, r)" by (cases a)
    let ?c' = "c\<lparr>store := AList.delete key (store c), evictions := evictions c + 1\<rparr>"
    have "subseq (store (evictLRU_loop n ?c')) (store ?c') \<and> options (evictLRU_loop n ?c') = options ?c'"
      by (rule Suc.IH)
    moreover have "subseq (store ?c') (store c)" by (simp add: subseq_delete)
    ultimately show ?thesis
      using Cons a subseq_order.order_trans by fastforce
  qed
qed

lemma evictLRU_shrinks:
  "subseq (store (evictLRU n c)) (store c) \<and> options (evictLRU n c) = options c"
  by (simp add: evictLRU_def evictLRU_loop_shrinks)

lemma evictForMemory_loop_shrinks:
  "subseq (store (evictForMemory_loop b f c)) (store c)
   \<and> options (evictForMemory_loop b f c) = options c"
proof (induction b f c rule: evictForMemory_loop.induct)
  case (1 b f c)
  show ?case
  proof (cases "of_int f < b")
    case False
    then show ?thesis by (simp add: evictForMemory_loop.simps [of b f c])
  next
    case True
    show ?thesis
    proof (cases "store c")
      case Nil
      then show ?thesis using True by (simp add: evictForMemory_loop.simps [of b f c])
    next
      case (Cons a rest)
      obtain key r where a: "a = (key, r)" by (cases a)
      let ?c' = "c\<lparr>store := AList.delete key (store c), evictions := evictions c + 1\<rparr>"
      have ih: "subseq (store (evictForMemory_loop b (f + size_rec r) ?c')) (store ?c')
            \<and> options (evictForMemory_loop b (f + size_rec r) ?c') = options ?c'"
        using "1.IH" [OF True Cons a [symmetric]] by simp
      have e: "evictForMemory_loop b f c = evictForMemory_loop b (f + size_rec r) ?c'"
        using True Cons a by (simp add: evictForMemory_loop.simps [of b f c])
      have "subseq (store ?c') (store c)" by (simp add: subseq_delete)
      then show ?thesis
        using ih e subseq_order.order_trans by fastforce
    qed
  qed
qed

lemma evictForMemory_shrinks:
  "subseq (store (evictForMemory b c)) (store c) \<and> options (evictForMemory b c) = options c"
  by (simp add: evictForMemory_def evictForMemory_loop_shrinks)


lemma cleanupPass_shrinks:
  "subseq (store (cleanupPass now c)) (store c) \<and> options (cleanupPass now c) = options c"
proof -
  define c1 where "c1 = cleanupExpired now (c\<lparr>lastCleanup := now\<rparr>)"
  define c2 where "c2 = (if int (length (store c1)) - maxSize (options c1) > 0
                         then evictLRU (int (length (store c1)) - maxSize (options c1)) c1 else c1)"
  define c3 where "c3 = (if calculateMemoryUsage c2 - maxMemoryBytes (options c2) > 0
                         then evictForMemory (of_int (calculateMemoryUsage c2 - maxMemoryBytes (options c2))) c2
                         else c2)"
  define c4 where "c4 = (if overThreshold (options c3) (calculateMemoryUsage c2)
                         then evictForMemory (of_int (calculateMemoryUsage c2) * (1 / 10)) c3 else c3)"
  have r: "cleanupPass now c = c4"
    unfolding cleanupPass_def c4_def c3_def c2_def c1_def Let_def by (rule refl)
  have s1: "subseq (store c1) (store c) \<and> options c1 = options c"
    unfolding c1_def using cleanupExpired_shrinks [of now "c\<lparr>lastCleanup := now\<rparr>"] by simp
  have s2: "subseq (store c2) (store c1) \<and> options c2 = options c1"
    unfolding c2_def by (simp add: evictLRU_shrinks)
  have s3: "subseq (store c3) (store c2) \<and> options c3 = options c2"
    unfolding c3_def by (simp add: evictForMemory_shrinks)
  have s4: "subseq (store c4) (store c3) \<and> options c4 = options c3"
    unfolding c4_def by (simp add: evictForMemory_shrinks)
  show ?thesis
    unfolding r using s1 s2 s3 s4 subseq_order.order_trans by metis
qed

lemma smartCleanup_shrinks:
  "subseq (store (smartCleanup force now c)) (store c)
   \<and> options (smartCleanup force now c) = options c"
  by (simp add: smartCleanup_def cleanupPass_shrinks)

lemma shrinks_wellFormed:
  "subseq (store c') (store c) \<Longrightarrow> wellFormed c \<Longrightarrow> wellFormed c'"
  by (simp add: wellFormed_def subseq_distinct_keys subseq_sizesOk)

lemma shrinks_usage:
  "subseq (store c') (store c) \<Longrightarrow> wellFormed c \<Longrightarrow>
   calculateMemoryUsage c' \<le> calculateMemoryUsage c"
  by (simp add: wellFormed_def calculateMemoryUsage_def subseq_storeBytes)

subsection \<open>Memory after a cleanup pass and after a read\<close>

lemma update_fresh: "k \<notin> fst ` set al \<Longrightarrow> AList.update k v al = al @ [(k, v)]"
  by (induction al) auto

lemma storeBytes_append: "storeBytes (xs @ ys) = storeBytes xs + storeBytes ys"
  by (simp add: storeBytes_def)

lemma storeBytes_delete:
  "distinct (map fst st) \<Longrightarrow> map_of st k = Some r \<Longrightarrow>
   storeBytes (AList.delete k st) + size_rec r = storeBytes st"
proof (induction st)
  case Nil
  then show ?case by simp
next
  case (Cons a st)
  obtain k' r' where a: "a = (k', r')" by (cases a)
  show ?case
  proof (cases "k' = k")
    case True
    then have "AList.delete k (a # st) = st"
      using Cons.prems a delete_head [of k r' st] by simp
    then show ?thesis using Cons.prems a True by (simp add: storeBytes_Cons)
  next
    case False
    then show ?thesis using Cons a by (simp add: storeBytes_Cons)
  qed
qed

lemma estimateSize_nonneg: "0 \<le> estimateSize v"
proof (cases v)
  case (VObject s)
  then show ?thesis by (cases s) auto
qed auto

lemma shrinks_keys:
  "subseq (store c') (store c) \<Longrightarrow> k \<notin> fst ` set (store c) \<Longrightarrow> k \<notin> fst ` set (store c')"
  using subseq_set_mono by fastforce



lemma get_store_cases:
  "store (snd (get key now c)) = store (smartCleanup False now c)
   \<or> store (snd (get key now c)) = AList.delete key (store (smartCleanup False now c))
   \<or> (\<exists>r. map_of (store (smartCleanup False now c)) key = Some r
          \<and> expiresAfter (expireAt r) now
          \<and> store (snd (get key now c))
              = AList.delete key (store (smartCleanup False now c)) @ [(key, r)])"
  by (auto simp: get_def Let_def update_fresh delete_notin_dom split: option.splits)

lemma get_usage:
  assumes wf: "wellFormed c"
  shows "calculateMemoryUsage (snd (get key now c)) \<le> calculateMemoryUsage c
         \<and> wellFormed (snd (get key now c))"
proof -
  let ?c1 = "smartCleanup False now c"
  let ?g = "snd (get key now c)"
  have s: "subseq (store ?c1) (store c)" by (simp add: smartCleanup_shrinks)
  have wf1: "wellFormed ?c1" using s wf shrinks_wellFormed by blast
  have u1: "calculateMemoryUsage ?c1 \<le> calculateMemoryUsage c" using s wf shrinks_usage by blast
  have sd: "subseq (AList.delete key (store ?c1)) (store ?c1)" by (rule subseq_delete)
  consider (same) "store ?g = store ?c1"
    | (del) "store ?g = AList.delete key (store ?c1)"
    | (hit) r where "map_of (store ?c1) key = Some r"
        "store ?g = AList.delete key (store ?c1) @ [(key, r)]"
    using get_store_cases [of key now c] by blast
  then show ?thesis
  proof cases
    case same
    then show ?thesis using wf1 u1 by (simp add: wellFormed_def calculateMemoryUsage_def)
  next
    case del
    then have "storeBytes (store ?g) \<le> storeBytes (store ?c1)"
      using sd wf1 by (simp add: subseq_storeBytes wellFormed_def)
    moreover have "wellFormed ?g"
      using del sd wf1 by (simp add: wellFormed_def subseq_distinct_keys subseq_sizesOk)
    ultimately show ?thesis using u1 by (simp add: calculateMemoryUsage_def)
  next
    case hit
    have d: "distinct (map fst (store ?c1))" using wf1 by (simp add: wellFormed_def)
    have eq: "storeBytes (store ?g) = storeBytes (store ?c1)"
      using hit storeBytes_delete [OF d hit(1)]
      by (simp add: storeBytes_append storeBytes_Cons storeBytes_def)
    have "(key, r) \<in> set (store ?c1)" using hit(1) by (rule map_of_SomeD)
    then have "0 \<le> size_rec r" using wf1 by (auto simp: wellFormed_def sizesOk_def list_all_iff)
    then have sr: "sizesOk [(key, r)]" by (simp add: sizesOk_def)
    have sdl: "sizesOk (AList.delete key (store ?c1))"
      using sd wf1 subseq_sizesOk by (auto simp: wellFormed_def)
    have ddl: "distinct (map fst (AList.delete key (store ?c1)))"
      using sd wf1 subseq_distinct_keys by (auto simp: wellFormed_def)
    have so: "sizesOk (store ?g)"
      using sr sdl hit(2) by (simp add: sizesOk_def)
    have "distinct (map fst (store ?g))"
      using ddl hit(2) delete_notin_dom [of key "store ?c1"] by simp
    then have "wellFormed ?g" using so by (simp add: wellFormed_def)
    then show ?thesis using u1 eq by (simp add: calculateMemoryUsage_def)
  qed
qed

subsection \<open>The steps of a write\<close>

lemma set_entry_steps:
  "set_entry key v ttlMs now c =
     (let c3 = setRoom (estimateSize v) now (setAfterCleanup key now c)
      in c3\<lparr>store := AList.update key
            \<lparr>value_rec = v, expireAt = expireAtFor now ttlMs, size_rec = estimateSize v\<rparr>
            (store c3)\<rparr>)"
  unfolding set_entry_def setRoom_def setAfterCleanup_def Let_def by (rule refl)

lemma setAfterCleanup_shrinks:
  "subseq (store (setAfterCleanup key now c)) (store c)
   \<and> options (setAfterCleanup key now c) = options c
   \<and> key \<notin> fst ` set (store (setAfterCleanup key now c))"
proof -
  let ?c1 = "smartCleanup False now c"
  have s: "subseq (store ?c1) (store c) \<and> options ?c1 = options c"
    by (rule smartCleanup_shrinks)
  show ?thesis
  proof (cases "map_of (store ?c1) key")
    case None
    then have "key \<notin> fst ` set (store ?c1)" by (simp add: map_of_eq_None_iff)
    then show ?thesis using None s by (simp add: setAfterCleanup_def Let_def)
  next
    case (Some r)
    have "subseq (AList.delete key (store ?c1)) (store c)"
      using s subseq_delete [of key "store ?c1"] subseq_order.order_trans by blast
    then show ?thesis
      using Some s delete_notin_dom [of key "store ?c1"] by (simp add: setAfterCleanup_def Let_def)
  qed
qed

lemma setRoom_shrinks:
  "subseq (store (setRoom sz now c)) (store c) \<and> options (setRoom sz now c) = options c"
proof -
  let ?a = "cleanupExpired now c"
  have a: "subseq (store ?a) (store c) \<and> options ?a = options c"
    by (rule cleanupExpired_shrinks)
  have "subseq (store (evictLRU n ?a)) (store c) \<and> options (evictLRU n ?a) = options c" for n
    using a evictLRU_shrinks [of n ?a] subseq_order.order_trans by metis
  moreover have "subseq (store (evictForMemory b ?a)) (store c) \<and> options (evictForMemory b ?a) = options c" for b
    using a evictForMemory_shrinks [of b ?a] subseq_order.order_trans by metis
  ultimately show ?thesis
    using a unfolding setRoom_def Let_def by (simp only: if_split subseq_order.order_refl) simp
qed

lemma set_entry_result:
  fixes key v ttlMs now c
  defines "c3 \<equiv> setRoom (estimateSize v) now (setAfterCleanup key now c)"
  shows "store (set_entry key v ttlMs now c)
          = store c3 @ [(key, \<lparr>value_rec = v, expireAt = expireAtFor now ttlMs, size_rec = estimateSize v\<rparr>)]"
    and "subseq (store c3) (store c)"
    and "key \<notin> fst ` set (store c3)"
    and "options (set_entry key v ttlMs now c) = options c"
proof -
  let ?c2 = "setAfterCleanup key now c"
  have s2: "subseq (store ?c2) (store c) \<and> options ?c2 = options c \<and> key \<notin> fst ` set (store ?c2)"
    by (rule setAfterCleanup_shrinks)
  have s3: "subseq (store c3) (store ?c2) \<and> options c3 = options ?c2"
    unfolding c3_def by (rule setRoom_shrinks)
  show k: "key \<notin> fst ` set (store c3)"
    using s2 s3 shrinks_keys by blast
  show "subseq (store c3) (store c)"
    using s2 s3 subseq_order.order_trans by blast
  show "store (set_entry key v ttlMs now c)
          = store c3 @ [(key, \<lparr>value_rec = v, expireAt = expireAtFor now ttlMs, size_rec = estimateSize v\<rparr>)]"
    using k by (simp add: set_entry_steps Let_def update_fresh c3_def)
  show "options (set_entry key v ttlMs now c) = options c"
    using s2 s3 by (simp add: set_entry_steps Let_def c3_def)
qed



lemma set_entry_wellFormed:
  assumes wf: "wellFormed c"
  shows "wellFormed (set_entry key v ttlMs now c)"
proof -
  let ?c3 = "setRoom (estimateSize v) now (setAfterCleanup key now c)"
  note r = set_entry_result
  have "wellFormed ?c3" using r(2) wf shrinks_wellFormed by blast
  then show ?thesis
    using r(1) r(3) estimateSize_nonneg [of v] by (simp add: wellFormed_def sizesOk_def)
qed

subsection \<open>A cleanup pass that finds nothing to do\<close>






subsection \<open>Reads\<close>

lemma get_hit_iff:
  "fst (get key now c) = Hit v \<longleftrightarrow>
     (\<exists>r. map_of (store (smartCleanup False now c)) key = Some r
          \<and> expiresAfter (expireAt r) now \<and> value_rec r = v)"
  by (auto simp: get_def Let_def split: option.splits)

lemma get_miss_iff:
  "fst (get key now c) = Miss \<longleftrightarrow>
     (\<forall>r. map_of (store (smartCleanup False now c)) key = Some r
          \<longrightarrow> \<not> expiresAfter (expireAt r) now)"
  by (auto simp: get_def Let_def split: option.splits)


lemma get_miss_store:
  assumes "fst (get key now c) = Miss"
  shows "store (snd (get key now c)) = AList.delete key (store (smartCleanup False now c))"
proof (cases "map_of (store (smartCleanup False now c)) key")
  case None
  then have "key \<notin> fst ` set (store (smartCleanup False now c))"
    by (simp add: map_of_eq_None_iff)
  then show ?thesis using None by (simp add: get_def Let_def)
next
  case (Some r)
  then show ?thesis using assms by (auto simp: get_def Let_def split: if_splits)
qed

lemma shrinks_lookup:
  assumes "subseq (store c') (store c)" and "distinct (map fst (store c))"
    and "map_of (store c') key = Some r"
  shows "map_of (store c) key = Some r"
proof -
  have "(key, r) \<in> set (store c')" using assms(3) by (rule map_of_SomeD)
  then have "(key, r) \<in> set (store c)" using assms(1) subseq_set_mono by blast
  then show ?thesis using assms(2) by simp
qed

lemma get_miss_expired:
  assumes wf: "wellFormed c"
    and look: "map_of (store c) key = Some r"
    and old: "\<not> expiresAfter (expireAt r) now"
  shows "fst (get key now c) = Miss
         \<and> key \<notin> fst ` set (store (snd (get key now c)))
         \<and> length (store (snd (get key now c))) < length (store c)"
proof -
  let ?c1 = "smartCleanup False now c"
  have s: "subseq (store ?c1) (store c)" by (simp add: smartCleanup_shrinks)
  have d: "distinct (map fst (store c))" using wf by (simp add: wellFormed_def)
  have m: "fst (get key now c) = Miss"
    unfolding get_miss_iff using shrinks_lookup [OF s d] look old by fastforce
  then have st: "store (snd (get key now c)) = AList.delete key (store ?c1)"
    by (rule get_miss_store)
  have "subseq (AList.delete key (store ?c1)) (store c)"
    using s subseq_delete [of key "store ?c1"] subseq_order.order_trans by blast
  moreover have "(key, r) \<in> set (store c)" using look by (rule map_of_SomeD)
  moreover have "(key, r) \<notin> set (AList.delete key (store ?c1))"
    using delete_notin_dom [of key "store ?c1"] by force
  ultimately have "length (AList.delete key (store ?c1)) < length (store c)"
    by (rule subseq_missing_shorter)
  then show ?thesis using m st delete_notin_dom [of key "store ?c1"] by simp
qed

lemma get_miss_absent:
  assumes "map_of (store c) key = None"
  shows "fst (get key now c) = Miss \<and> key \<notin> fst ` set (store (snd (get key now c)))"
proof -
  let ?c1 = "smartCleanup False now c"
  have s: "subseq (store ?c1) (store c)" by (simp add: smartCleanup_shrinks)
  have "key \<notin> fst ` set (store c)" using assms by (simp add: map_of_eq_None_iff)
  then have "key \<notin> fst ` set (store ?c1)" using s shrinks_keys by blast
  then have "map_of (store ?c1) key = None" by (simp add: map_of_eq_None_iff)
  then show ?thesis
    using \<open>key \<notin> fst ` set (store ?c1)\<close> by (simp add: get_def Let_def)
qed

lemma set_entry_lookup:
  "map_of (store (set_entry key v ttlMs now c)) key
     = Some \<lparr>value_rec = v, expireAt = expireAtFor now ttlMs, size_rec = estimateSize v\<rparr>"
  by (simp add: set_entry_steps Let_def update_conv')

lemma get_after_set_hit_iff:
  assumes wf: "wellFormed c"
    and live: "expiresAfter (expireAtFor t ttlMs) now"
  shows "fst (get key now (set_entry key v ttlMs t c)) = Hit v
          \<longleftrightarrow> key \<in> fst ` set (store (smartCleanup False now (set_entry key v ttlMs t c)))"
proof -
  let ?c' = "set_entry key v ttlMs t c"
  let ?c1 = "smartCleanup False now ?c'"
  let ?rec = "\<lparr>value_rec = v, expireAt = expireAtFor t ttlMs, size_rec = estimateSize v\<rparr>"
  have s: "subseq (store ?c1) (store ?c')" by (simp add: smartCleanup_shrinks)
  have d: "distinct (map fst (store ?c'))"
    using set_entry_wellFormed [OF wf] by (simp add: wellFormed_def)
  show ?thesis
  proof
    assume "fst (get key now ?c') = Hit v"
    then obtain r where "map_of (store ?c1) key = Some r" unfolding get_hit_iff by blast
    then show "key \<in> fst ` set (store ?c1)"
      by (metis map_of_eq_None_iff option.distinct(1))
  next
    assume "key \<in> fst ` set (store ?c1)"
    then obtain r where r: "map_of (store ?c1) key = Some r"
      by (metis map_of_eq_None_iff not_Some_eq)
    then have "map_of (store ?c') key = Some r" using shrinks_lookup [OF s d] by blast
    then have "r = ?rec" by (simp add: set_entry_lookup)
    then show "fst (get key now ?c') = Hit v"
      unfolding get_hit_iff using r live by auto
  qed
qed

subsection \<open>Entries that are already dead\<close>

lemma expiresAfter_mono: "expiresAfter e t' \<Longrightarrow> t \<le> t' \<Longrightarrow> expiresAfter e t"
  by (cases e) auto

lemma deadKey_subset:
  "set (store c') \<subseteq> set (store c) \<Longrightarrow> deadKey key t c \<Longrightarrow> deadKey key t c'"
  by (auto simp: deadKey_def list_all_iff)

lemma deadKey_get_miss:
  assumes "deadKey key t c" and "t \<le> now"
  shows "fst (get key now c) = Miss"
  unfolding get_miss_iff
proof (intro allI impI)
  fix r
  assume "map_of (store (smartCleanup False now c)) key = Some r"
  then have "(key, r) \<in> set (store (smartCleanup False now c))" by (rule map_of_SomeD)
  moreover have "set (store (smartCleanup False now c)) \<subseteq> set (store c)"
    using smartCleanup_shrinks [of False now c] subseq_set_mono by blast
  ultimately have "\<not> expiresAfter (expireAt r) t"
    using assms(1) by (auto simp: deadKey_def list_all_iff)
  then show "\<not> expiresAfter (expireAt r) now"
    using assms(2) expiresAfter_mono by blast
qed

lemma get_store_subset: "set (store (snd (get k now c))) \<subseteq> set (store c)"
proof -
  let ?c1 = "smartCleanup False now c"
  have s: "set (store ?c1) \<subseteq> set (store c)"
    using smartCleanup_shrinks [of False now c] subseq_set_mono by blast
  have d: "set (AList.delete k (store ?c1)) \<subseteq> set (store ?c1)"
    using subseq_delete [of k "store ?c1"] subseq_set_mono by blast
  consider (same) "store (snd (get k now c)) = store ?c1"
    | (del) "store (snd (get k now c)) = AList.delete k (store ?c1)"
    | (hit) r where "map_of (store ?c1) k = Some r"
        "store (snd (get k now c)) = AList.delete k (store ?c1) @ [(k, r)]"
    using get_store_cases [of k now c] by blast
  then show ?thesis
  proof cases
    case same
    then show ?thesis using s by simp
  next
    case del
    then show ?thesis using s d by auto
  next
    case hit
    have "(k, r) \<in> set (store ?c1)" using hit(1) by (rule map_of_SomeD)
    then show ?thesis using hit(2) s d by auto
  qed
qed

lemma deadKey_applyOp:
  assumes "deadKey key t c" and "\<not> writesKey key (snd op)"
  shows "deadKey key t (applyOp op c)"
proof -
  obtain now opn where op: "op = (now, opn)" by (cases op)
  show ?thesis
  proof (cases opn)
    case (OpGet k)
    then show ?thesis using op assms(1) get_store_subset [of k now c] deadKey_subset by auto
  next
    case (OpSet k v ttlMs)
    then have ne: "k \<noteq> key" using assms(2) op by simp
    have "set (store (setRoom (estimateSize v) now (setAfterCleanup k now c))) \<subseteq> set (store c)"
      using set_entry_result(2) [of v now k c] subseq_set_mono by blast
    then show ?thesis
      using OpSet op ne assms(1) set_entry_result(1) [of k v ttlMs now c]
      by (auto simp: deadKey_def list_all_iff)
  next
    case (OpDelete k)
    have "set (AList.delete k (store c)) \<subseteq> set (store c)"
      using subseq_delete [of k "store c"] subseq_set_mono by blast
    then show ?thesis
      using OpDelete op assms(1) deadKey_subset [of "delete_entry k c" c] by (simp add: delete_entry_def)
  next
    case OpClear
    then show ?thesis using op by (simp add: clear_def deadKey_def)
  next
    case OpForceCleanup
    have "set (store (smartCleanup True now c)) \<subseteq> set (store c)"
      using smartCleanup_shrinks [of True now c] subseq_set_mono by blast
    then show ?thesis
      using OpForceCleanup op assms(1) deadKey_subset by (simp add: forceCleanup_def)
  qed
qed

lemma deadKey_runOps:
  assumes "deadKey key t c" and "list_all (\<lambda>op. \<not> writesKey key (snd op)) ops"
  shows "deadKey key t (runOps ops c)"
  using assms
proof (induction ops arbitrary: c)
  case Nil
  then show ?case by (simp add: runOps_def)
next
  case (Cons op ops)
  have "deadKey key t (applyOp op c)"
    using Cons.prems by (intro deadKey_applyOp) simp_all
  then have "deadKey key t (runOps ops (applyOp op c))"
    using Cons.prems by (intro Cons.IH) simp_all
  then show ?case by (simp add: runOps_def)
qed

lemma deadKey_set_entry:
  assumes "ttlMs \<le> 0"
  shows "deadKey key t (set_entry key v (Ms ttlMs) t c)"
proof -
  have "key \<notin> fst ` set (store (setRoom (estimateSize v) t (setAfterCleanup key t c)))"
    by (rule set_entry_result(3))
  then show ?thesis
    using assms set_entry_result(1) [of key v "Ms ttlMs" t c]
    by (force simp: deadKey_def list_all_iff)
qed

subsection \<open>The states of the class\<close>

lemma wellFormed_new: "wellFormed (newMemoryCache a b c d)"
  by (simp add: wellFormed_def sizesOk_def newMemoryCache_def)

lemma delete_entry_usage:
  "wellFormed c \<Longrightarrow>
   calculateMemoryUsage (delete_entry key c) \<le> calculateMemoryUsage c
   \<and> wellFormed (delete_entry key c)"
  using shrinks_usage [of "delete_entry key c" c] shrinks_wellFormed [of "delete_entry key c" c]
  by (simp add: delete_entry_def subseq_delete)

lemma clear_usage: "calculateMemoryUsage (clear c) = 0 \<and> wellFormed (clear c)"
  by (simp add: clear_def calculateMemoryUsage_def storeBytes_def wellFormed_def sizesOk_def)

lemma forceCleanup_wellFormed: "wellFormed c \<Longrightarrow> wellFormed (forceCleanup now c)"
  using smartCleanup_shrinks [of True now c] shrinks_wellFormed by (auto simp: forceCleanup_def)

lemma wellFormed_applyOp: "wellFormed c \<Longrightarrow> wellFormed (applyOp op c)"
proof -
  assume wf: "wellFormed c"
  obtain now opn where op: "op = (now, opn)" by (cases op)
  show ?thesis
  proof (cases opn)
    case (OpGet k)
    then show ?thesis using op wf by (simp add: get_usage)
  next
    case (OpSet k v ttlMs)
    then show ?thesis using op wf by (simp add: set_entry_wellFormed)
  next
    case (OpDelete k)
    then show ?thesis using op wf by (simp add: delete_entry_usage)
  next
    case OpClear
    then show ?thesis using op by (simp add: clear_usage)
  next
    case OpForceCleanup
    then show ?thesis using op wf by (simp add: forceCleanup_wellFormed)
  qed
qed

text \<open>Every state reached from a new cache by the public operations is a state of the class.\<close>

lemma wellFormed_runOps: "wellFormed (runOps ops (newMemoryCache a b i th))"
proof -
  have "wellFormed c \<Longrightarrow> wellFormed (runOps ops c)" for c
    by (induction ops arbitrary: c) (simp_all add: runOps_def wellFormed_applyOp)
  then show ?thesis by (simp add: wellFormed_new)
qed

subsection \<open>The memory budget\<close>




text \<open>
  When the item capacity is reached, \<^verbatim>\<open>set\<close> evicts for the item count and does not look at
  the memory any more: with capacity 2 and a budget of 10 bytes, two entries of 4 bytes
  followed by one of 8 bytes leave 12 bytes in use.
\<close>

lemma set_size_branch_skips_memory:
  "calculateMemoryUsage
     (set_entry ''c'' (VString ''zzzz'') Forever t0
        (set_entry ''b'' (VString ''yy'') Forever t0
           (set_entry ''a'' (VString ''xx'') Forever t0
              (newMemoryCache (Some 2) (Some 10) None None)))) = 12"
  unfolding t0_def by code_simp

subsection \<open>Least-recently-used eviction\<close>





text \<open>The reads that the repository's test makes after that write.\<close>
lemma lru_test_scenario:
  "fst (get ''key1'' t0 (set_entry ''key3'' (VString ''value3'') (Ms 1000) t0 touchedCache))
     = Hit (VString ''value1'')
   \<and> fst (get ''key2'' t0 (set_entry ''key3'' (VString ''value3'') (Ms 1000) t0 touchedCache))
     = Miss
   \<and> fst (get ''key3'' t0 (set_entry ''key3'' (VString ''value3'') (Ms 1000) t0 touchedCache))
     = Hit (VString ''value3'')"
  unfolding touchedCache_def smallCache_def t0_def by code_simp

subsection \<open>Expiry\<close>

text \<open>
  Claim C4, as stated, makes every entry written with a time-to-live of 1000 ms a hit when
  read 999 ms later.  The read starts with the opportunistic cleanup pass; when that pass is
  due it evicts for memory, and it can evict the entry just written: with a budget of 100
  bytes, a value of 90 bytes is above the threshold of 80 percent and is evicted by the pass
  of the read.
\<close>

theorem ttl_hit_counterexample:
  "fst (get ''k'' (t0 + 999)
         (set_entry ''k'' (VString (replicate 45 CHR ''x'')) (Ms 1000) t0 warmCache)) = Miss"
  unfolding warmCache_def t0_def by code_simp

text \<open>
  Claim C4, amended: for a cache in a state of the class, a read is a miss when the key is
  absent, and when the entry has expired; in the second case the entry is gone afterwards and
  the number of entries has decreased.  An entry written with a time-to-live of 1000 ms is a
  miss (and gone, with fewer entries) when read 1001 ms later; read 999 ms later it is a hit
  exactly when the cleanup pass of that read has left it in the store, in particular whenever
  that pass is not due.
\<close>

theorem ttl_expiry:
  assumes "wellFormed c"
  shows "(map_of (store c) k1 = None \<longrightarrow> fst (get k1 now c) = Miss)
       \<and> (map_of (store c) k2 = Some r \<and> \<not> expiresAfter (expireAt r) now \<longrightarrow>
            fst (get k2 now c) = Miss
            \<and> k2 \<notin> set (keysOf (snd (get k2 now c)))
            \<and> cacheSize (snd (get k2 now c)) < cacheSize c)
       \<and> fst (get key (t + 1001) (set_entry key v (Ms 1000) t c)) = Miss
       \<and> key \<notin> set (keysOf (snd (get key (t + 1001) (set_entry key v (Ms 1000) t c))))
       \<and> cacheSize (snd (get key (t + 1001) (set_entry key v (Ms 1000) t c)))
            < cacheSize (set_entry key v (Ms 1000) t c)
       \<and> (fst (get key (t + 999) (set_entry key v (Ms 1000) t c)) = Hit v
            \<longleftrightarrow> key \<in> set (keysOf (smartCleanup False (t + 999) (set_entry key v (Ms 1000) t c))))
       \<and> (t + 999 - lastCleanup (set_entry key v (Ms 1000) t c) < cleanupInterval (options c) \<longrightarrow>
            fst (get key (t + 999) (set_entry key v (Ms 1000) t c)) = Hit v)"
proof -
  let ?c' = "set_entry key v (Ms 1000) t c"
  let ?rec = "\<lparr>value_rec = v, expireAt = expireAtFor t (Ms 1000), size_rec = estimateSize v\<rparr>"
  have wf': "wellFormed ?c'" using assms by (rule set_entry_wellFormed)
  have look: "map_of (store ?c') key = Some ?rec" by (rule set_entry_lookup)
  have a: "map_of (store c) k1 = None \<longrightarrow> fst (get k1 now c) = Miss"
    using get_miss_absent [of c k1 now] by simp
  have b: "map_of (store c) k2 = Some r \<and> \<not> expiresAfter (expireAt r) now \<longrightarrow>
            fst (get k2 now c) = Miss
            \<and> k2 \<notin> set (keysOf (snd (get k2 now c)))
            \<and> cacheSize (snd (get k2 now c)) < cacheSize c"
    using get_miss_expired [OF assms, of k2 r now] by (simp add: keysOf_def cacheSize_def)
  have old: "\<not> expiresAfter (expireAt ?rec) (t + 1001)" by simp
  have c: "fst (get key (t + 1001) ?c') = Miss
       \<and> key \<notin> set (keysOf (snd (get key (t + 1001) ?c')))
       \<and> cacheSize (snd (get key (t + 1001) ?c')) < cacheSize ?c'"
    using get_miss_expired [OF wf' look old] by (simp add: keysOf_def cacheSize_def)
  have live: "expiresAfter (expireAtFor t (Ms 1000)) (t + 999)" by simp
  have d: "fst (get key (t + 999) ?c') = Hit v
            \<longleftrightarrow> key \<in> set (keysOf (smartCleanup False (t + 999) ?c'))"
    using get_after_set_hit_iff [OF assms live, of key v] by (simp add: keysOf_def)
  have e: "t + 999 - lastCleanup ?c' < cleanupInterval (options c) \<longrightarrow>
            fst (get key (t + 999) ?c') = Hit v"
  proof
    assume "t + 999 - lastCleanup ?c' < cleanupInterval (options c)"
    then have "smartCleanup False (t + 999) ?c' = ?c'"
      using set_entry_result(4) [of key v "Ms 1000" t c] by (simp add: smartCleanup_def)
    moreover have "key \<in> fst ` set (store ?c')"
      using look by (metis map_of_eq_None_iff option.distinct(1))
    ultimately show "fst (get key (t + 999) ?c') = Hit v"
      using d by (simp add: keysOf_def)
  qed
  show ?thesis using a b c d e by blast
qed

theorem ttl_expiry_witness:
  "wellFormed expiredEntryCache
   \<and> map_of (store expiredEntryCache) ''nonexistent'' = None
   \<and> map_of (store expiredEntryCache) ''old''
        = Some \<lparr>value_rec = VString ''stale'', expireAt = At (t0 + 10), size_rec = 10\<rparr>
   \<and> \<not> expiresAfter (At (t0 + 10)) (t0 + 20)
   \<and> (t0 + 20) + 999 - lastCleanup (set_entry ''key1'' (VString ''value1'') (Ms 1000) (t0 + 20) expiredEntryCache)
        < cleanupInterval (options expiredEntryCache)
   \<and> fst (get ''nonexistent'' (t0 + 20) expiredEntryCache) = Miss
   \<and> fst (get ''old'' (t0 + 20) expiredEntryCache) = Miss
   \<and> ''old'' \<notin> set (keysOf (snd (get ''old'' (t0 + 20) expiredEntryCache)))
   \<and> cacheSize (snd (get ''old'' (t0 + 20) expiredEntryCache)) < cacheSize expiredEntryCache
   \<and> fst (get ''key1'' ((t0 + 20) + 999)
             (set_entry ''key1'' (VString ''value1'') (Ms 1000) (t0 + 20) expiredEntryCache))
        = Hit (VString ''value1'')
   \<and> fst (get ''key1'' ((t0 + 20) + 1001)
             (set_entry ''key1'' (VString ''value1'') (Ms 1000) (t0 + 20) expiredEntryCache))
        = Miss"
proof -
  have h1: "wellFormed expiredEntryCache"
    unfolding expiredEntryCache_def testCache_def t0_def by code_simp
  have h2: "map_of (store expiredEntryCache) ''nonexistent'' = None"
    unfolding expiredEntryCache_def testCache_def t0_def by code_simp
  have h3: "map_of (store expiredEntryCache) ''old''
        = Some \<lparr>value_rec = VString ''stale'', expireAt = At (t0 + 10), size_rec = 10\<rparr>"
    unfolding expiredEntryCache_def testCache_def t0_def by code_simp
  have h4: "\<not> expiresAfter (At (t0 + 10)) (t0 + 20)" by simp
  have h5: "(t0 + 20) + 999 - lastCleanup (set_entry ''key1'' (VString ''value1'') (Ms 1000) (t0 + 20) expiredEntryCache)
        < cleanupInterval (options expiredEntryCache)"
    unfolding expiredEntryCache_def testCache_def t0_def by code_simp
  show ?thesis
    using h1 h2 h3 h4 h5
      ttl_expiry [OF h1, of "''nonexistent''" "t0 + 20" "''old''"
        "\<lparr>value_rec = VString ''stale'', expireAt = At (t0 + 10), size_rec = 10\<rparr>"
        "''key1''" "t0 + 20" "VString ''value1''"]
    by simp
qed

text \<open>The scenario on the cache of the repository's test.\<close>

lemma ttl_test_scenario:
  "fst (get ''key1'' (t0 + 999) oneEntryCache) = Hit (VString ''value1'')
   \<and> fst (get ''key1'' (t0 + 1000) (snd (get ''key1'' (t0 + 999) oneEntryCache))) = Miss
   \<and> fst (get ''key1'' (t0 + 1001) oneEntryCache) = Miss
   \<and> cacheSize oneEntryCache = 1
   \<and> cacheSize (snd (get ''key1'' (t0 + 1001) oneEntryCache)) = 0"
  unfolding oneEntryCache_def testCache_def t0_def by code_simp

subsection \<open>The expiry boundary\<close>

text \<open>
  Claim C9: for a cache in a state of the class, a read is a hit only if the key has an entry
  whose expiry timestamp is strictly greater than the time of the read; a read at the very
  instant of the expiry timestamp is a miss and removes the entry; and an entry written with
  a time-to-live of zero or less is a miss at every read that is not earlier than the write,
  also after any history of other operations in between that does not write the key again.
\<close>

theorem expiry_boundary:
  assumes "wellFormed c"
  shows "(fst (get k1 now1 c) = Hit v1 \<longrightarrow>
            (\<exists>r. map_of (store c) k1 = Some r \<and> expiresAfter (expireAt r) now1 \<and> value_rec r = v1))
       \<and> (map_of (store c) k2 = Some r2 \<and> expireAt r2 = At now2 \<longrightarrow>
            fst (get k2 now2 c) = Miss \<and> k2 \<notin> set (keysOf (snd (get k2 now2 c))))
       \<and> (ttlMs \<le> 0 \<and> t \<le> t' \<longrightarrow> fst (get key t' (set_entry key v (Ms ttlMs) t c)) = Miss)
       \<and> (ttlMs \<le> 0 \<and> t \<le> t' \<and> list_all (\<lambda>op. \<not> writesKey key (snd op)) ops \<longrightarrow>
            fst (get key t' (runOps ops (set_entry key v (Ms ttlMs) t c))) = Miss)"
proof (intro conjI impI)
  assume "fst (get k1 now1 c) = Hit v1"
  then obtain r where r: "map_of (store (smartCleanup False now1 c)) k1 = Some r"
      "expiresAfter (expireAt r) now1" "value_rec r = v1"
    unfolding get_hit_iff by blast
  have "map_of (store c) k1 = Some r"
    using shrinks_lookup [of "smartCleanup False now1 c" c k1 r] r(1) assms
    by (simp add: smartCleanup_shrinks wellFormed_def)
  then show "\<exists>r. map_of (store c) k1 = Some r \<and> expiresAfter (expireAt r) now1 \<and> value_rec r = v1"
    using r by blast
next
  assume a: "map_of (store c) k2 = Some r2 \<and> expireAt r2 = At now2"
  then have "\<not> expiresAfter (expireAt r2) now2" by simp
  then have m: "fst (get k2 now2 c) = Miss \<and> k2 \<notin> fst ` set (store (snd (get k2 now2 c)))"
    using get_miss_expired [OF assms, of k2 r2 now2] a by simp
  then show "fst (get k2 now2 c) = Miss" by simp
  show "k2 \<notin> set (keysOf (snd (get k2 now2 c)))" using m by (simp add: keysOf_def)
next
  assume "ttlMs \<le> 0 \<and> t \<le> t'"
  then have le: "ttlMs \<le> 0" and tt: "t \<le> t'" by simp_all
  have "deadKey key t (set_entry key v (Ms ttlMs) t c)"
    using le by (rule deadKey_set_entry)
  then show "fst (get key t' (set_entry key v (Ms ttlMs) t c)) = Miss"
    using tt by (rule deadKey_get_miss)
next
  assume a: "ttlMs \<le> 0 \<and> t \<le> t' \<and> list_all (\<lambda>op. \<not> writesKey key (snd op)) ops"
  then have le: "ttlMs \<le> 0" and tt: "t \<le> t'"
    and ops: "list_all (\<lambda>op. \<not> writesKey key (snd op)) ops" by simp_all
  have "deadKey key t (set_entry key v (Ms ttlMs) t c)"
    using le by (rule deadKey_set_entry)
  then have "deadKey key t (runOps ops (set_entry key v (Ms ttlMs) t c))"
    using ops by (rule deadKey_runOps)
  then show "fst (get key t' (runOps ops (set_entry key v (Ms ttlMs) t c))) = Miss"
    using tt by (rule deadKey_get_miss)
qed

theorem expiry_boundary_witness:
  "wellFormed oneEntryCache
   \<and> fst (get ''key1'' (t0 + 999) oneEntryCache) = Hit (VString ''value1'')
   \<and> map_of (store oneEntryCache) ''key1''
        = Some \<lparr>value_rec = VString ''value1'', expireAt = At (t0 + 1000), size_rec = 12\<rparr>
   \<and> (0::int) \<le> 0 \<and> t0 \<le> t0 + 5
   \<and> list_all (\<lambda>op. \<not> writesKey ''key2'' (snd op))
        [(t0 + 1, OpGet ''key2''), (t0 + 2, OpSet ''key3'' VNull Forever), (t0 + 3, OpForceCleanup)]
   \<and> (\<exists>r. map_of (store oneEntryCache) ''key1'' = Some r
          \<and> expiresAfter (expireAt r) (t0 + 999) \<and> value_rec r = VString ''value1'')
   \<and> fst (get ''key1'' (t0 + 1000) oneEntryCache) = Miss
   \<and> ''key1'' \<notin> set (keysOf (snd (get ''key1'' (t0 + 1000) oneEntryCache)))
   \<and> fst (get ''key2'' (t0 + 5) (set_entry ''key2'' (VNumber 7) (Ms 0) t0 oneEntryCache)) = Miss
   \<and> fst (get ''key2'' (t0 + 5)
        (runOps [(t0 + 1, OpGet ''key2''), (t0 + 2, OpSet ''key3'' VNull Forever), (t0 + 3, OpForceCleanup)]
           (set_entry ''key2'' (VNumber 7) (Ms 0) t0 oneEntryCache))) = Miss"
proof -
  have h1: "wellFormed oneEntryCache"
    unfolding oneEntryCache_def testCache_def t0_def by code_simp
  have h2: "fst (get ''key1'' (t0 + 999) oneEntryCache) = Hit (VString ''value1'')"
    unfolding oneEntryCache_def testCache_def t0_def by code_simp
  have h3: "map_of (store oneEntryCache) ''key1''
        = Some \<lparr>value_rec = VString ''value1'', expireAt = At (t0 + 1000), size_rec = 12\<rparr>"
    unfolding oneEntryCache_def testCache_def t0_def by code_simp
  have h4: "list_all (\<lambda>op. \<not> writesKey ''key2'' (snd op))
        [(t0 + 1, OpGet ''key2''), (t0 + 2, OpSet ''key3'' VNull Forever), (t0 + 3, OpForceCleanup)]"
    by simp
  show ?thesis
    using h1 h2 h3 h4
      expiry_boundary [OF h1, of "''key1''" "t0 + 999" "VString ''value1''" "''key1''"
        "\<lparr>value_rec = VString ''value1'', expireAt = At (t0 + 1000), size_rec = 12\<rparr>" "t0 + 1000"
        0 t0 "t0 + 5" "''key2''" "VNumber 7"
        "[(t0 + 1, OpGet ''key2''), (t0 + 2, OpSet ''key3'' VNull Forever), (t0 + 3, OpForceCleanup)]"]
    by simp
qed

section \<open>Properties of the merger on a store of objects\<close>

subsection \<open>What a call leaves alone\<close>


lemma prefix_list_update:
  "prefix xs ys \<Longrightarrow> length xs \<le> i \<Longrightarrow> prefix xs (ys[i := v])"
  by (auto simp: prefix_def list_update_append)

lemma prefix_snoc: "prefix xs ys \<Longrightarrow> prefix xs (ys @ [y])"
  by (simp add: prefix_def) auto

lemma pushUnseen_heap_frame:
  "prefix as (arrays h) \<Longrightarrow> length as \<le> arr \<Longrightarrow>
   prefix as (arrays (pushUnseen_heap seen arr nxt h))
   \<and> objects (pushUnseen_heap seen arr nxt h) = objects h
   \<and> length (arrays (pushUnseen_heap seen arr nxt h)) = length (arrays h)"
proof (induction nxt arbitrary: seen h)
  case Nil
  then show ?case by simp
next
  case (Cons item nxt)
  show ?case
  proof (cases "url item \<in> seen")
    case True
    then show ?thesis using Cons by simp
  next
    case False
    let ?h = "h\<lparr>arrays := (arrays h)[arr := readArray h arr @ [item]]\<rparr>"
    have "prefix as (arrays ?h)" using Cons.prems by (simp add: prefix_list_update)
    then show ?thesis using False Cons.IH [of ?h "insert (url item) seen"] Cons.prems(2) by simp
  qed
qed

lemma mergeType_heap_frame:
  assumes "extends h0 h" and "length (objects h0) \<le> out"
  shows "extends h0 (mergeType_heap inc out h type)
         \<and> length (objects (mergeType_heap inc out h type)) = length (objects h)"
proof -
  let ?existed = "fieldOrEmpty h out type"
  let ?h1 = "h\<lparr>arrays := arrays h @ [?existed]\<rparr>"
  let ?h2 = "pushUnseen_heap (set (map url ?existed)) (length (arrays h))
               (fieldOrEmpty h inc type) ?h1"
  have p1: "prefix (arrays h0) (arrays ?h1)"
    using assms(1) by (simp add: extends_def prefix_snoc)
  have le: "length (arrays h0) \<le> length (arrays h)"
    using assms(1) by (simp add: extends_def prefix_length_le)
  have f: "prefix (arrays h0) (arrays ?h2) \<and> objects ?h2 = objects ?h1"
    using pushUnseen_heap_frame [OF p1 le] by simp
  have "prefix (objects h0) ((objects h)[out := AList.update type (length (arrays h)) (readObject ?h2 out)])"
    using assms by (simp add: extends_def prefix_list_update)
  then show ?thesis
    using f by (simp add: mergeType_heap_def allocArray_def Let_def extends_def)
qed

lemma foldl_mergeType_heap_frame:
  assumes "extends h0 h" and "length (objects h0) \<le> out"
  shows "extends h0 (foldl (mergeType_heap inc out) h ks)
         \<and> length (objects (foldl (mergeType_heap inc out) h ks)) = length (objects h)"
  using assms
proof (induction ks arbitrary: h)
  case Nil
  then show ?case by simp
next
  case (Cons k ks)
  have s: "extends h0 (mergeType_heap inc out h k)
         \<and> length (objects (mergeType_heap inc out h k)) = length (objects h)"
    using Cons.prems by (rule mergeType_heap_frame)
  then show ?case using Cons.IH [of "mergeType_heap inc out h k"] Cons.prems(2) by simp
qed

lemma extends_refl: "extends h h"
  by (simp add: extends_def)

subsection \<open>The store model computes the merge of the values\<close>

lemma readArray_pushUnseen_heap:
  "arr < length (arrays h) \<Longrightarrow>
   readArray (pushUnseen_heap seen arr nxt h) arr = pushUnseen seen (readArray h arr) nxt
   \<and> (\<forall>a. a \<noteq> arr \<longrightarrow> readArray (pushUnseen_heap seen arr nxt h) a = readArray h a)
   \<and> objects (pushUnseen_heap seen arr nxt h) = objects h
   \<and> length (arrays (pushUnseen_heap seen arr nxt h)) = length (arrays h)"
proof (induction nxt arbitrary: seen h)
  case Nil
  then show ?case by simp
next
  case (Cons item nxt)
  show ?case
  proof (cases "url item \<in> seen")
    case True
    then show ?thesis using Cons by simp
  next
    case False
    let ?h = "h\<lparr>arrays := (arrays h)[arr := readArray h arr @ [item]]\<rparr>"
    have l: "arr < length (arrays ?h)" using Cons.prems by simp
    have r: "readArray ?h arr = readArray h arr @ [item]"
      using Cons.prems by (simp add: readArray_def)
    have o: "\<forall>a. a \<noteq> arr \<longrightarrow> readArray ?h a = readArray h a"
      by (simp add: readArray_def)
    show ?thesis
      using False Cons.IH [OF l, of "insert (url item) seen"] r o by simp
  qed
qed

lemma readArray_objects_update [simp]: "readArray (h\<lparr>objects := x\<rparr>) a = readArray h a"
  by (simp add: readArray_def)

lemma readObject_arrays_update [simp]: "readObject (h\<lparr>arrays := x\<rparr>) a = readObject h a"
  by (simp add: readObject_def)

lemma map_of_contents:
  "map_of (contents h a) k = map_option (readArray h) (map_of (readObject h a) k)"
  by (simp add: contents_def map_of_map)

lemma fieldOrEmpty_contents: "fieldOrEmpty h a k = orEmpty (map_of (contents h a) k)"
  by (simp add: fieldOrEmpty_def orEmpty_def map_of_contents split: option.splits)

lemma map_update_fields:
  "map (\<lambda>(k, a). (k, f a)) (AList.update k v xs) = AList.update k (f v) (map (\<lambda>(k, a). (k, f a)) xs)"
  by (induction xs) auto

lemma set_update_fields: "set (AList.update k v xs) \<subseteq> insert (k, v) (set xs)"
  by (induction xs) auto

lemma validHeap_object:
  "validHeap h \<Longrightarrow> (k, a) \<in> set (readObject h obj) \<Longrightarrow> a < length (arrays h)"
  by (auto simp: validHeap_def readObject_def list_all_iff split: if_splits)

lemma contents_cong:
  assumes "readObject h' obj = readObject h obj"
    and "\<And>k a. (k, a) \<in> set (readObject h obj) \<Longrightarrow> readArray h' a = readArray h a"
  shows "contents h' obj = contents h obj"
  unfolding contents_def using assms by (auto intro!: map_cong)

lemma mergeType_heap_contents:
  assumes v: "validHeap h" and o: "out < length (objects h)" and ne: "inc \<noteq> out"
  shows "contents (mergeType_heap inc out h type) out = mergeType (contents h inc) (contents h out) type
       \<and> contents (mergeType_heap inc out h type) inc = contents h inc
       \<and> validHeap (mergeType_heap inc out h type)
       \<and> length (objects (mergeType_heap inc out h type)) = length (objects h)"
proof -
  let ?existed = "fieldOrEmpty h out type"
  let ?nxt = "fieldOrEmpty h inc type"
  let ?m = "length (arrays h)"
  let ?h1 = "h\<lparr>arrays := arrays h @ [?existed]\<rparr>"
  let ?h2 = "pushUnseen_heap (set (map url ?existed)) ?m ?nxt ?h1"
  let ?h3 = "?h2\<lparr>objects := (objects ?h2)[out := AList.update type ?m (readObject ?h2 out)]\<rparr>"
  have e: "mergeType_heap inc out h type = ?h3"
    by (simp add: mergeType_heap_def allocArray_def Let_def)
  have m1: "?m < length (arrays ?h1)" by simp
  note p = readArray_pushUnseen_heap [OF m1, of "set (map url ?existed)" ?nxt]
  have r1: "readArray ?h1 ?m = ?existed" by (simp add: readArray_def)
  have old1: "a < ?m \<Longrightarrow> readArray ?h1 a = readArray h a" for a
    by (simp add: readArray_def nth_append)
  have rm: "readArray ?h3 ?m = pushUnseen (set (map url ?existed)) ?existed ?nxt"
    using p r1 by simp
  have old3: "a < ?m \<Longrightarrow> readArray ?h3 a = readArray h a" for a
  proof -
    assume a: "a < ?m"
    then have "readArray ?h2 a = readArray ?h1 a" using p by simp
    then show ?thesis using old1 [OF a] by simp
  qed
  have ob2: "objects ?h2 = objects h" using p by simp
  have len3: "length (arrays ?h3) = ?m + 1" using p by simp
  have ro: "readObject ?h3 out = AList.update type ?m (readObject h out)"
    using o ob2 by (simp add: readObject_def)
  have ri: "readObject ?h3 obj = readObject h obj" if "obj \<noteq> out" for obj
    using that ob2 by (simp add: readObject_def)
  have c_out: "contents ?h3 out = AList.update type (readArray ?h3 ?m) (contents h out)"
  proof -
    have "map (\<lambda>(k, a). (k, readArray ?h3 a)) (readObject h out) = contents h out"
      unfolding contents_def
      using validHeap_object [OF v, of _ _ out] old3 by (auto intro!: map_cong)
    then show ?thesis
      unfolding contents_def [of ?h3] ro map_update_fields by simp
  qed
  have c_inc: "contents ?h3 inc = contents h inc"
    using ri [OF ne] validHeap_object [OF v, of _ _ inc] old3 by (intro contents_cong) auto
  have valid: "validHeap ?h3"
  proof -
    have "list_all (\<lambda>(k, a). a < ?m + 1) obj" if "obj \<in> set (objects h)" for obj
      using v that by (fastforce simp: validHeap_def list_all_iff)
    moreover have "list_all (\<lambda>(k, a). a < ?m + 1) (AList.update type ?m (readObject h out))"
    proof -
      have "set (AList.update type ?m (readObject h out)) \<subseteq> insert (type, ?m) (set (readObject h out))"
        by (rule set_update_fields)
      moreover have "a < ?m" if "(k, a) \<in> set (readObject h out)" for k a
        using validHeap_object [OF v that] .
      ultimately show ?thesis by (fastforce simp: list_all_iff)
    qed
    ultimately have "list_all (list_all (\<lambda>(k, a). a < ?m + 1))
                       ((objects h)[out := AList.update type ?m (readObject h out)])"
      unfolding list_all_iff [of _ "(objects h)[out := _]"]
      using set_update_subset_insert [of "objects h" out] by blast
    then show ?thesis
      unfolding validHeap_def using len3 ob2 o by (simp add: readObject_def)
  qed
  have "contents ?h3 out = mergeType (contents h inc) (contents h out) type"
    using c_out rm by (simp add: mergeType_def Let_def fieldOrEmpty_contents)
  then show ?thesis using c_inc valid ob2 unfolding e by simp
qed

lemma foldl_mergeType_heap_contents:
  assumes "validHeap h" and "out < length (objects h)" and "inc \<noteq> out"
  shows "contents (foldl (mergeType_heap inc out) h ks) out
           = foldl (mergeType (contents h inc)) (contents h out) ks"
  using assms
proof (induction ks arbitrary: h)
  case Nil
  then show ?case by simp
next
  case (Cons k ks)
  note s = mergeType_heap_contents [OF Cons.prems, of k]
  have "contents (foldl (mergeType_heap inc out) (mergeType_heap inc out h k) ks) out
          = foldl (mergeType (contents (mergeType_heap inc out h k) inc))
              (contents (mergeType_heap inc out h k) out) ks"
    using s Cons.prems by (intro Cons.IH) simp_all
  then show ?case using s by simp
qed

lemma merge_heap_refines:
  assumes v: "validHeap h" and t: "target < length (objects h)" and i: "inc < length (objects h)"
  shows "contents (snd (mergeMergedByType_heap target (Some inc) h))
                  (fst (mergeMergedByType_heap target (Some inc) h))
           = mergeMergedByType (contents h target) (Some (contents h inc))"
proof -
  let ?out = "length (objects h)"
  let ?h1 = "h\<lparr>objects := objects h @ [readObject h target]\<rparr>"
  have v1: "validHeap ?h1"
    using v t by (auto simp: validHeap_def readObject_def list_all_iff)
  have ne: "inc \<noteq> ?out" using i by simp
  have o1: "?out < length (objects ?h1)" by simp
  have "readObject ?h1 inc = readObject h inc"
    using i by (simp add: readObject_def nth_append)
  then have ci: "contents ?h1 inc = contents h inc"
    by (simp add: contents_def)
  have "readObject ?h1 ?out = readObject h target"
    by (simp add: readObject_def)
  then have ct: "contents ?h1 ?out = contents h target"
    by (simp add: contents_def)
  have k: "map fst (readObject h inc) = map fst (contents h inc)"
    by (simp add: contents_def split_def comp_def)
  show ?thesis
    using foldl_mergeType_heap_contents [OF v1 o1 ne, of "map fst (readObject h inc)"] ci ct k
    by (simp add: mergeMergedByType_heap_def mergeMergedByType_def allocObject_def)
qed

lemma extends_contents:
  assumes "extends h h'" and "validHeap h" and "a < length (objects h)"
  shows "contents h' a = contents h a"
proof (rule contents_cong)
  obtain os where os: "objects h' = objects h @ os"
    using assms(1) by (auto simp: extends_def prefix_def)
  then show ro: "readObject h' a = readObject h a"
    using assms(3) by (simp add: readObject_def nth_append)
  fix k b
  assume "(k, b) \<in> set (readObject h a)"
  then have b: "b < length (arrays h)" using assms(2) validHeap_object by blast
  obtain as where "arrays h' = arrays h @ as"
    using assms(1) by (auto simp: extends_def prefix_def)
  then show "readArray h' b = readArray h b"
    using b by (simp add: readArray_def nth_append)
qed

subsection \<open>Purity\<close>

text \<open>
  Claim C7, as stated, makes the result a fresh mapping at every call.  When \<open>incoming\<close> is
  absent the function returns \<open>target\<close> itself: the address returned is the address passed in,
  an object that existed before the call.
\<close>

theorem merge_fresh_counterexample:
  "fst (mergeMergedByType_heap 0 None oneObjectHeap) = 0
   \<and> 0 < length (objects oneObjectHeap)"
  by (simp add: mergeMergedByType_heap_def oneObjectHeap_def)

text \<open>
  Claim C7, amended: at every call, every object and every array that existed before the call
  is at its address with its contents after the call (\<^const>\<open>extends\<close>; by
  \<open>extends_contents\<close> the values of \<open>target\<close> and of \<open>incoming\<close> are what they were); when
  \<open>incoming\<close> is present the result is a fresh object, at an address that was not allocated
  before the call; when \<open>incoming\<close> is absent the result is \<open>target\<close> itself and the heap is
  unchanged.
\<close>

theorem merge_purity:
  "extends h (snd (mergeMergedByType_heap target incoming h))
   \<and> fst (mergeMergedByType_heap target (Some inc) h) = length (objects h)
   \<and> fst (mergeMergedByType_heap target (Some inc) h)
       < length (objects (snd (mergeMergedByType_heap target (Some inc) h)))
   \<and> mergeMergedByType_heap target None h = (target, h)"
proof -
  let ?h1 = "h\<lparr>objects := objects h @ [readObject h target]\<rparr>"
  have e1: "extends h ?h1" by (simp add: extends_def prefix_snoc)
  have f: "extends h (foldl (mergeType_heap i (length (objects h))) ?h1 ks)
         \<and> length (objects (foldl (mergeType_heap i (length (objects h))) ?h1 ks)) = length (objects ?h1)"
    for i ks
    using e1 by (intro foldl_mergeType_heap_frame) simp_all
  have a: "extends h (snd (mergeMergedByType_heap target incoming h))"
  proof (cases incoming)
    case None
    then show ?thesis by (simp add: mergeMergedByType_heap_def extends_refl)
  next
    case (Some i)
    then show ?thesis using f [of i] by (simp add: mergeMergedByType_heap_def allocObject_def)
  qed
  have b: "fst (mergeMergedByType_heap target (Some inc) h) = length (objects h)"
    by (simp add: mergeMergedByType_heap_def allocObject_def)
  have c: "fst (mergeMergedByType_heap target (Some inc) h)
       < length (objects (snd (mergeMergedByType_heap target (Some inc) h)))"
    using f [of inc] by (simp add: mergeMergedByType_heap_def allocObject_def)
  have d: "mergeMergedByType_heap target None h = (target, h)"
    by (simp add: mergeMergedByType_heap_def)
  show ?thesis using a b c d by simp
qed

section \<open>Properties of the search orchestrator\<close>









end
